theory Spec2Isabelle
  imports Complex_Main "HOL-Library.Multiset" "HOL-Library.Char_ord" "HOL-Library.List_Lexorder"
begin

section \<open>The tables and the graph of \<^verbatim>\<open>app.py\<close>\<close>

text \<open>
  \<^verbatim>\<open>app.py\<close> loads three objects once: the graph \<^verbatim>\<open>G\<close> (networkx, from GraphML) and
  the two pandas tables \<^verbatim>\<open>nodes_df\<close> and \<^verbatim>\<open>edges_df\<close>. A table is the list of its rows in
  file order; a column that the script guards against missing values (\<^verbatim>\<open>na=False\<close>,
  \<^verbatim>\<open>dropna()\<close>) holds an \<open>option\<close>, with \<open>None\<close> for pandas' NaN. Python strings are
  \<open>string\<close>; the exceptions the modelled calls can raise are values of \<open>py_error\<close>.
\<close>

datatype py_error =
    ValueError | ZeroDivisionError | AttributeError | ReError
  | StreamlitAPIException | NetworkXPointlessConcept | NetworkXError

record edge_row =
  subject :: string
  predicate :: string
  object :: string
  weight :: int
  sources :: "string option"

record node_row =
  node :: "string option"
  label :: string

text \<open>
  A networkx graph: whether it is directed, its nodes in insertion order and its edges.
  networkx adds the end points of every edge to the node set and keeps each node once;
  \<open>wf_graph\<close> records that.
\<close>

record graph =
  directed :: bool
  nodes :: "string list"
  edges :: "(string \<times> string) list"

definition wf_graph :: "graph \<Rightarrow> bool" where
  "wf_graph G \<longleftrightarrow>
     distinct (nodes G) \<and>
     (\<forall>(u, v) \<in> set (edges G). u \<in> set (nodes G) \<and> v \<in> set (nodes G))"

section \<open>Tab 3: relationship filter and strength bound\<close>

text \<open>
  \<^verbatim>\<open>edges_df['weight'].max()\<close>: pandas returns NaN for an empty column, the largest
  entry otherwise. \<^verbatim>\<open>int(...)\<close> of NaN raises \<^verbatim>\<open>ValueError\<close>.
\<close>

fun series_max :: "int list \<Rightarrow> int option" where
  "series_max [] = None"
| "series_max (w # ws) = Some (fold max ws w)"

definition py_int :: "int option \<Rightarrow> py_error + int" where
  "py_int v = (case v of None \<Rightarrow> Inl ValueError | Some x \<Rightarrow> Inr x)"

definition max_weight :: "edge_row list \<Rightarrow> py_error + int" where
  "max_weight edges_df = py_int (series_max (map weight edges_df))"

text \<open>
  The bounds of the strength slider, \<^verbatim>\<open>st.slider(min_value=1, max_value=int(...))\<close>:
  Streamlit refuses a slider whose maximum is not above its minimum, so the lines after
  it run only for a table whose largest weight is at least 2.
\<close>

definition min_weight_slider :: "edge_row list \<Rightarrow> py_error + int \<times> int" where
  "min_weight_slider edges_df =
     (case max_weight edges_df of
        Inl err \<Rightarrow> Inl err
      | Inr mx \<Rightarrow> if mx \<le> 1 then Inl StreamlitAPIException else Inr (1, mx))"

text \<open>
  \<^verbatim>\<open>filtered_edges = edges_df[edges_df['weight'] >= min_weight].copy()\<close>, narrowed to one
  predicate unless the select box holds its first entry \<^verbatim>\<open>"All"\<close>.
\<close>

definition filtered_edges :: "string \<Rightarrow> int \<Rightarrow> edge_row list \<Rightarrow> edge_row list" where
  "filtered_edges relationship_type min_weight edges_df =
     (let fe = filter (\<lambda>e. weight e \<ge> min_weight) edges_df
      in if relationship_type \<noteq> ''All''
         then filter (\<lambda>e. predicate e = relationship_type) fe
         else fe)"

section \<open>Tab 1: relationships per source document\<close>

text \<open>Python's \<^verbatim>\<open>s.split(',')\<close>: the pieces between the separators, empty ones included.\<close>

fun split_on :: "char \<Rightarrow> string \<Rightarrow> string list" where
  "split_on sep [] = [[]]"
| "split_on sep (c # cs) =
     (if c = sep then [] # split_on sep cs
      else (c # hd (split_on sep cs)) # tl (split_on sep cs))"

text \<open>
  The loop over \<^verbatim>\<open>edges_df['sources'].dropna()\<close> extends \<^verbatim>\<open>all_sources\<close> with the pieces of
  every present field; \<^verbatim>\<open>Counter(all_sources)\<close> then counts each piece.
\<close>

definition all_sources :: "edge_row list \<Rightarrow> string list" where
  "all_sources edges_df =
     concat (map (split_on CHR '','') (List.map_filter sources edges_df))"

definition source_counts :: "edge_row list \<Rightarrow> string \<Rightarrow> nat" where
  "source_counts edges_df doc = count_list (all_sources edges_df) doc"

text \<open>The pieces of one row's field, and how often a document occurs among them.\<close>

definition row_mentions :: "edge_row \<Rightarrow> string \<Rightarrow> nat" where
  "row_mentions e doc =
     (case sources e of None \<Rightarrow> 0 | Some s \<Rightarrow> count_list (split_on CHR '','' s) doc)"

section \<open>Tab 4: density and PageRank ranking\<close>

text \<open>
  \<^verbatim>\<open>nx.density(G)\<close>: zero without edges or with at most one node, otherwise
  \<^verbatim>\<open>m / (n * (n - 1))\<close>, doubled for an undirected graph. The quotient is taken in the
  reals; Python rounds it to the nearest float.
\<close>

definition density :: "graph \<Rightarrow> real" where
  "density G =
     (let n = length (nodes G); m = length (edges G)
      in if m = 0 \<or> n \<le> 1 then 0
         else let d = real m / (real n * (real n - 1))
              in if \<not> directed G then d * 2 else d)"

text \<open>
  \<^verbatim>\<open>sorted(items, key=lambda x: x[1], reverse=True)\<close>: Python's sort is stable, and with
  \<^verbatim>\<open>reverse=True\<close> it reverses the list, sorts ascending and reverses the result, so
  items of equal key keep their order. \<^verbatim>\<open>pagerank.items()\<close> lists the nodes in the
  graph's node order; the scores are computed by \<^verbatim>\<open>nx.pagerank\<close> and are an input here.
\<close>

definition sorted_reverse :: "('a \<Rightarrow> 'k::linorder) \<Rightarrow> 'a list \<Rightarrow> 'a list" where
  "sorted_reverse key xs = rev (sort_key key (rev xs))"

definition top_pagerank :: "(string \<times> real) list \<Rightarrow> (string \<times> real) list" where
  "top_pagerank pagerank = take 15 (sorted_reverse snd pagerank)"

definition score_desc :: "(string \<times> real) \<Rightarrow> (string \<times> real) \<Rightarrow> bool" where
  "score_desc a b \<longleftrightarrow> snd a \<ge> snd b"

section \<open>Tab 2: entity search\<close>

text \<open>
  \<^verbatim>\<open>nodes_df['node'].str.contains(search_term, case=False, na=False)\<close>. The call leaves
  \<^verbatim>\<open>regex\<close> at its default \<^verbatim>\<open>True\<close>: pandas compiles the term with
  \<^verbatim>\<open>re.compile(term, re.IGNORECASE)\<close> and tests every present name with \<^verbatim>\<open>search\<close>; a
  missing name gets the value of \<^verbatim>\<open>na\<close>. The accessor \<^verbatim>\<open>.str\<close> is evaluated first, the
  term is compiled next, the names are tested last.

  Of Python's pattern syntax the model covers two kinds of terms. A term that starts
  with one of the repetition signs \<^verbatim>\<open>*\<close>, \<^verbatim>\<open>+\<close>, \<^verbatim>\<open>?\<close> is rejected by \<^verbatim>\<open>re.compile\<close>
  (\<^verbatim>\<open>re.error\<close>, nothing to repeat), here \<open>ReError\<close>; the script does not catch it. A
  term built from ordinary characters and the dot is a pattern in which an ordinary
  character matches itself up to letter case and the dot matches any character but the
  line feed. Any other term that holds a character with a special meaning in a pattern
  lies outside the model: \<open>re_compile\<close> is \<open>None\<close> on it.
\<close>

datatype rx = Lit char | Dot

definition re_special :: "char list" where
  "re_special = CHR 0x5C # ''.^$*+?{}[]|()''"

fun re_parse :: "string \<Rightarrow> rx list option" where
  "re_parse [] = Some []"
| "re_parse (c # cs) =
     (case re_parse cs of
        None \<Rightarrow> None
      | Some rs \<Rightarrow>
          if c = CHR ''.'' then Some (Dot # rs)
          else if c \<in> set re_special then None
          else Some (Lit c # rs))"

definition re_compile :: "string \<Rightarrow> (py_error + rx list) option" where
  "re_compile t =
     (if t \<noteq> [] \<and> hd t \<in> set ''*+?'' then Some (Inl ReError)
      else map_option Inr (re_parse t))"

text \<open>
  Letter case: the upper-case ASCII letters are folded to lower case; every other
  character is left as it is (names are taken to be ASCII).
\<close>

definition py_lower :: "char \<Rightarrow> char" where
  "py_lower c =
     (case map_of (zip ''ABCDEFGHIJKLMNOPQRSTUVWXYZ'' ''abcdefghijklmnopqrstuvwxyz'') c of
        None \<Rightarrow> c
      | Some l \<Rightarrow> l)"

fun rx_matches :: "rx \<Rightarrow> char \<Rightarrow> bool" where
  "rx_matches (Lit p) c \<longleftrightarrow> py_lower c = py_lower p"
| "rx_matches Dot c \<longleftrightarrow> c \<noteq> CHR 0x0A"

text \<open>\<open>re_match\<close>: the pattern matches at the start of the text; \<open>re_search\<close>: somewhere.\<close>

fun re_match :: "rx list \<Rightarrow> string \<Rightarrow> bool" where
  "re_match [] s \<longleftrightarrow> True"
| "re_match (r # rs) [] \<longleftrightarrow> False"
| "re_match (r # rs) (c # cs) \<longleftrightarrow> rx_matches r c \<and> re_match rs cs"

fun re_search :: "rx list \<Rightarrow> string \<Rightarrow> bool" where
  "re_search rs [] \<longleftrightarrow> re_match rs []"
| "re_search rs (c # cs) \<longleftrightarrow> re_match rs (c # cs) \<or> re_search rs cs"

text \<open>
  The accessor \<^verbatim>\<open>.str\<close> exists for a column of strings only. A cell of the name
  column is a string or missing. A table read from a file in which every name is
  missing has a column of floating-point NaN, and on it the accessor raises
  \<^verbatim>\<open>AttributeError\<close> before \<^verbatim>\<open>contains\<close> is called; the column of a table without rows
  keeps the general type, on which the accessor works. A column that pandas reads as
  numbers or truth values has no string cell at all: such tables are not values of
  this model.

  \<^verbatim>\<open>str.contains\<close> maps the test over the column, with \<open>na\<close> for a missing entry
  (pandas' default for \<open>na\<close> is NaN, here \<open>None\<close>). Indexing a table with a mask that
  holds NaN raises \<^verbatim>\<open>ValueError\<close>; otherwise it keeps the rows whose mask entry is true.
\<close>

definition str_accessor :: "string option list \<Rightarrow> py_error + string option list" where
  "str_accessor col =
     (if col \<noteq> [] \<and> (\<forall>v \<in> set col. v = None) then Inl AttributeError else Inr col)"

definition str_contains ::
  "(string \<Rightarrow> bool) \<Rightarrow> bool option \<Rightarrow> string option list \<Rightarrow> bool option list" where
  "str_contains test na col = map (\<lambda>v. case v of None \<Rightarrow> na | Some s \<Rightarrow> Some (test s)) col"

definition bool_index :: "'a list \<Rightarrow> bool option list \<Rightarrow> py_error + 'a list" where
  "bool_index df flags =
     (if None \<in> set flags then Inl ValueError
      else Inr (map fst (filter (\<lambda>(row, keep). keep = Some True) (zip df flags))))"

definition matches_with :: "(string \<Rightarrow> bool) \<Rightarrow> node_row list \<Rightarrow> py_error + node_row list" where
  "matches_with test nodes_df =
     (case str_accessor (map node nodes_df) of
        Inl err \<Rightarrow> Inl err
      | Inr col \<Rightarrow> bool_index nodes_df (str_contains test (Some False) col))"

definition search_matches :: "string \<Rightarrow> node_row list \<Rightarrow> (py_error + node_row list) option" where
  "search_matches search_term nodes_df =
     (case str_accessor (map node nodes_df) of
        Inl err \<Rightarrow> Some (Inl err)
      | Inr col \<Rightarrow>
          (case re_compile search_term of
             None \<Rightarrow> None
           | Some (Inl err) \<Rightarrow> Some (Inl err)
           | Some (Inr rs) \<Rightarrow> Some (matches_with (re_search rs) nodes_df)))"

text \<open>
  What one expander shows of a matched row: the name, the label, the numbers of rows
  of \<^verbatim>\<open>edges_df\<close> with the name as subject and as object, and the first five of the former.
  The comparison \<^verbatim>\<open>edges_df['subject'] == node_name\<close> is false everywhere for a missing
  name.
\<close>

record entity_match =
  entity :: "string option"
  entity_label :: string
  outgoing_count :: nat
  incoming_count :: nat
  sample_outgoing :: "edge_row list"

definition related_out :: "edge_row list \<Rightarrow> node_row \<Rightarrow> edge_row list" where
  "related_out edges_df row = filter (\<lambda>e. Some (subject e) = node row) edges_df"

definition related_in :: "edge_row list \<Rightarrow> node_row \<Rightarrow> edge_row list" where
  "related_in edges_df row = filter (\<lambda>e. Some (object e) = node row) edges_df"

definition expander :: "edge_row list \<Rightarrow> node_row \<Rightarrow> entity_match" where
  "expander edges_df row =
     \<lparr>entity = node row, entity_label = label row,
      outgoing_count = length (related_out edges_df row),
      incoming_count = length (related_in edges_df row),
      sample_outgoing = take 5 (related_out edges_df row)\<rparr>"

text \<open>
  The tab: nothing is searched for an empty term; otherwise the number of matches is
  reported and the first 20 matches are expanded.
\<close>

datatype search_view = NoQuery | Found nat "entity_match list"

definition show_matches :: "edge_row list \<Rightarrow> node_row list \<Rightarrow> search_view" where
  "show_matches edges_df ms = Found (length ms) (map (expander edges_df) (take 20 ms))"

definition entity_search ::
  "string \<Rightarrow> node_row list \<Rightarrow> edge_row list \<Rightarrow> (py_error + search_view) option" where
  "entity_search search_term nodes_df edges_df =
     (if search_term = [] then Some (Inr NoQuery)
      else map_option (map_sum id (show_matches edges_df)) (search_matches search_term nodes_df))"

text \<open>The claimed matching rule: the folded term is a contiguous part of the folded name.\<close>

fun starts_with :: "string \<Rightarrow> string \<Rightarrow> bool" where
  "starts_with [] s \<longleftrightarrow> True"
| "starts_with (p # ps) [] \<longleftrightarrow> False"
| "starts_with (p # ps) (c # cs) \<longleftrightarrow> p = c \<and> starts_with ps cs"

fun substring_of :: "string \<Rightarrow> string \<Rightarrow> bool" where
  "substring_of t [] \<longleftrightarrow> starts_with t []"
| "substring_of t (c # cs) \<longleftrightarrow> starts_with t (c # cs) \<or> substring_of t cs"

definition ci_substring :: "string \<Rightarrow> string \<Rightarrow> bool" where
  "ci_substring t name \<longleftrightarrow> substring_of (map py_lower t) (map py_lower name)"

section \<open>Tab 4: connectivity\<close>

text \<open>
  \<^verbatim>\<open>G.to_undirected()\<close> keeps the nodes and forgets the direction of the edges. \<open>adj G v\<close>
  lists the neighbours of \<open>v\<close>: the successors in a directed graph, both ends' partners
  in an undirected one. They are listed in node order (networkx keeps them in edge
  order); the functions below depend on the set of neighbours only.
\<close>

definition to_undirected :: "graph \<Rightarrow> graph" where
  "to_undirected G = G\<lparr>directed := False\<rparr>"

definition adj :: "graph \<Rightarrow> string \<Rightarrow> string list" where
  "adj G v =
     filter (\<lambda>w. (v, w) \<in> set (edges G) \<or> (\<not> directed G \<and> (w, v) \<in> set (edges G))) (nodes G)"

text \<open>
  The breadth-first loop shared by \<^verbatim>\<open>_plain_bfs\<close> and
  \<^verbatim>\<open>_single_shortest_path_length\<close>: while the current level is not empty, the next
  level is made of the neighbours of its nodes that were not seen before, each once.
  The result is the list of the levels. (networkx also leaves the loop as soon as all
  nodes were seen; the levels after that are empty anyway.)
\<close>

definition next_level :: "graph \<Rightarrow> string list \<Rightarrow> string list \<Rightarrow> string list" where
  "next_level G seen thislevel =
     remdups (filter (\<lambda>w. w \<notin> set seen) (concat (map (adj G) thislevel)))"

function bfs_levels :: "graph \<Rightarrow> string list \<Rightarrow> string list \<Rightarrow> string list list" where
  "bfs_levels G seen thislevel =
     (if thislevel = [] then []
      else let nextlevel = next_level G seen thislevel
           in thislevel # bfs_levels G (seen @ nextlevel) nextlevel)"
  by pat_completeness auto
termination
proof (relation "measure (\<lambda>(G, seen, thislevel).
    card (set (nodes G) - set seen) + (if thislevel = [] then 0 else 1))")
  show "wf (measure (\<lambda>(G, seen, thislevel).
    card (set (nodes G) - set seen) + (if thislevel = [] then 0 else 1)))"
    by simp
next
  fix G :: graph and seen thislevel nextlevel :: "string list"
  assume ne: "thislevel \<noteq> []"
    and nl: "nextlevel = next_level G seen thislevel"
  have sub: "set nextlevel \<subseteq> set (nodes G) - set seen"
    unfolding nl by (auto simp: next_level_def adj_def)
  show "((G, seen @ nextlevel, nextlevel), (G, seen, thislevel)) \<in>
    measure (\<lambda>(G, seen, thislevel).
      card (set (nodes G) - set seen) + (if thislevel = [] then 0 else 1))"
  proof (cases "nextlevel = []")
    case True
    with ne show ?thesis by simp
  next
    case False
    then obtain w where w: "w \<in> set nextlevel" by (cases nextlevel) auto
    with sub have "set (nodes G) - set (seen @ nextlevel) \<subset> set (nodes G) - set seen"
      by auto
    then have "card (set (nodes G) - set (seen @ nextlevel)) < card (set (nodes G) - set seen)"
      by (intro psubset_card_mono) auto
    with ne False show ?thesis by simp
  qed
qed

declare bfs_levels.simps [simp del]

definition plain_bfs :: "graph \<Rightarrow> string \<Rightarrow> string list" where
  "plain_bfs G source = concat (bfs_levels G [source] [source])"

text \<open>
  \<^verbatim>\<open>nx.is_connected\<close>: undefined for the graph without nodes, otherwise whether the search
  from the first node sees as many nodes as the graph has.
\<close>

definition is_connected :: "graph \<Rightarrow> py_error + bool" where
  "is_connected G =
     (if length (nodes G) = 0 then Inl NetworkXPointlessConcept
      else Inr (length (plain_bfs G (hd (nodes G))) = length (nodes G)))"

text \<open>
  \<^verbatim>\<open>nx.connected_components\<close>: every node not yet seen starts a search, whose nodes form
  one component; \<^verbatim>\<open>nx.number_connected_components\<close> counts them.
\<close>

fun connected_components :: "graph \<Rightarrow> string list \<Rightarrow> string list \<Rightarrow> string list list" where
  "connected_components G seen [] = []"
| "connected_components G seen (v # vs) =
     (if v \<in> set seen then connected_components G seen vs
      else let c = plain_bfs G v in c # connected_components G (seen @ c) vs)"

definition number_connected_components :: "graph \<Rightarrow> nat" where
  "number_connected_components G = length (connected_components G [] (nodes G))"

text \<open>
  \<^verbatim>\<open>nx.single_source_shortest_path_length\<close>: every node of level \<open>d\<close> at distance \<open>d\<close>.
  \<^verbatim>\<open>nx.eccentricity\<close>: for every node the largest distance from it; it raises
  \<^verbatim>\<open>NetworkXError\<close> when the distances from some node do not cover the graph.
  \<^verbatim>\<open>nx.diameter\<close>: the largest eccentricity.
\<close>

definition single_source_shortest_path_length :: "graph \<Rightarrow> string \<Rightarrow> (string \<times> nat) list" where
  "single_source_shortest_path_length G source =
     concat (map (\<lambda>(d, lvl). map (\<lambda>w. (w, d)) lvl) (enumerate 0 (bfs_levels G [source] [source])))"

fun eccentricity :: "graph \<Rightarrow> string list \<Rightarrow> py_error + (string \<times> nat) list" where
  "eccentricity G [] = Inr []"
| "eccentricity G (n # ns) =
     (let dist = single_source_shortest_path_length G n
      in if length dist \<noteq> length (nodes G) then Inl NetworkXError
         else case eccentricity G ns of
                Inl err \<Rightarrow> Inl err
              | Inr e \<Rightarrow> Inr ((n, Max (set (map snd dist))) # e))"

definition diameter :: "graph \<Rightarrow> py_error + nat" where
  "diameter G =
     (case eccentricity G (nodes G) of
        Inl err \<Rightarrow> Inl err
      | Inr e \<Rightarrow> if e = [] then Inl ValueError else Inr (Max (set (map snd e))))"

text \<open>
  The second metric of the tab: the diameter of the undirected graph if that is
  connected, the number of its connected components otherwise.
\<close>

datatype connectivity = Diameter nat | ConnectedComponents nat

definition network_connectivity :: "graph \<Rightarrow> py_error + connectivity" where
  "network_connectivity G =
     (case is_connected (to_undirected G) of
        Inl err \<Rightarrow> Inl err
      | Inr True \<Rightarrow>
          (case diameter (to_undirected G) of
             Inl err \<Rightarrow> Inl err
           | Inr d \<Rightarrow> Inr (Diameter d))
      | Inr False \<Rightarrow> Inr (ConnectedComponents (number_connected_components (to_undirected G))))"

text \<open>
  The script computes the metric after the sidebar, whose third figure is
  \<^verbatim>\<open>2*len(G.edges())/len(G.nodes())\<close>: on a graph without nodes that division raises
  \<^verbatim>\<open>ZeroDivisionError\<close> and the script stops there. \<open>connectivity_metric\<close> is the metric
  as the script reaches it.
\<close>

definition average_connections :: "graph \<Rightarrow> py_error + real" where
  "average_connections G =
     (if length (nodes G) = 0 then Inl ZeroDivisionError
      else Inr (2 * real (length (edges G)) / real (length (nodes G))))"

definition connectivity_metric :: "graph \<Rightarrow> py_error + connectivity" where
  "connectivity_metric G =
     (case average_connections G of
        Inl err \<Rightarrow> Inl err
      | Inr avg \<Rightarrow> network_connectivity G)"

text \<open>
  What the results are measured against. \<open>nbrs\<close> is the neighbour relation the search
  runs on, \<open>at_dist R s k\<close> the set of what \<open>k\<close> steps of \<open>R\<close> reach from \<open>s\<close> and
  fewer steps do not. Two nodes are linked when an edge joins them in either
  direction; the component of a node is what chains of links reach from it; the hop
  count between two nodes is the length of a shortest chain.
\<close>

definition nbrs :: "graph \<Rightarrow> (string \<times> string) set" where
  "nbrs G = {(v, w). w \<in> set (adj G v)}"

definition at_dist :: "('a \<times> 'a) set \<Rightarrow> 'a \<Rightarrow> nat \<Rightarrow> 'a set" where
  "at_dist R s k = {w. (s, w) \<in> R ^^ k \<and> (\<forall>j<k. (s, w) \<notin> R ^^ j)}"

definition linked :: "graph \<Rightarrow> (string \<times> string) set" where
  "linked G = {(u, v). (u, v) \<in> set (edges G) \<or> (v, u) \<in> set (edges G)}"

definition component_of :: "graph \<Rightarrow> string \<Rightarrow> string set" where
  "component_of G v = (linked G)\<^sup>* `` {v}"

definition components :: "graph \<Rightarrow> string set set" where
  "components G = component_of G ` set (nodes G)"

definition hops :: "graph \<Rightarrow> string \<Rightarrow> string \<Rightarrow> nat" where
  "hops G u v = (LEAST k. (u, v) \<in> linked G ^^ k)"

definition longest_shortest_path :: "graph \<Rightarrow> nat" where
  "longest_shortest_path G = Max ((\<lambda>(u, v). hops G u v) ` (set (nodes G) \<times> set (nodes G)))"

section \<open>Example tables\<close>

text \<open>The three relationships of the scenario with entities A, B and C.\<close>

definition rel :: "string \<Rightarrow> string \<Rightarrow> string \<Rightarrow> int \<Rightarrow> edge_row" where
  "rel s p ob w = \<lparr>subject = s, predicate = p, object = ob, weight = w, sources = None\<rparr>"

definition scenario_edges :: "edge_row list" where
  "scenario_edges =
     [rel ''A'' ''regulates'' ''B'' 3, rel ''B'' ''regulates'' ''C'' 1,
      rel ''A'' ''interacts'' ''C'' 5]"

text \<open>The scenario as a directed graph, and a relationship that names one document twice.\<close>

definition scenario_graph :: graph where
  "scenario_graph =
     \<lparr>directed = True, nodes = [''A'', ''B'', ''C''],
      edges = [(''A'', ''B''), (''B'', ''C''), (''A'', ''C'')]\<rparr>"

definition twice_sourced :: edge_row where
  "twice_sourced = (rel ''A'' ''regulates'' ''B'' 2)\<lparr>sources := Some ''d1,d1''\<rparr>"

text \<open>
  A table with a relationship of the type \<open>all\<close>, and two isolated entities of equal
  score.
\<close>

definition all_typed_edges :: "edge_row list" where
  "all_typed_edges = [rel ''A'' ''all'' ''B'' 2, rel ''A'' ''regulates'' ''C'' 1]"

definition tied_scores :: "(string \<times> real) list" where
  "tied_scores = [(''b'', 1 / 2), (''a'', 1 / 2)]"

text \<open>Entity rows with a name, a row without one, and a small entity table.\<close>

definition entity_row :: "string \<Rightarrow> string \<Rightarrow> node_row" where
  "entity_row n l = \<lparr>node = Some n, label = l\<rparr>"



text \<open>
  The graph without nodes, a graph of two components and a chain of four entities.
\<close>

definition null_graph :: graph where
  "null_graph = \<lparr>directed = True, nodes = [], edges = []\<rparr>"

definition two_islands :: graph where
  "two_islands =
     \<lparr>directed = True, nodes = [''A'', ''B'', ''C'', ''D''],
      edges = [(''A'', ''B''), (''C'', ''B'')]\<rparr>"

definition chain_graph :: graph where
  "chain_graph =
     \<lparr>directed = True, nodes = [''A'', ''B'', ''C'', ''D''],
      edges = [(''B'', ''A''), (''B'', ''C''), (''D'', ''C'')]\<rparr>"

section \<open>Strength bound\<close>

lemma fold_max_Max: "fold max ws (w::int) = Max (insert w (set ws))"
proof (induction ws arbitrary: w)
  case Nil
  show ?case by simp
next
  case (Cons a ws)
  have "Max (insert (max a w) (set ws)) = Max (insert w (insert a (set ws)))"
  proof (cases "set ws = {}")
    case True
    then show ?thesis by (simp add: max.commute)
  next
    case False
    then show ?thesis by (simp add: max.assoc max.commute)
  qed
  with Cons show ?case by simp
qed

lemma series_max_Max: "ws \<noteq> [] \<Longrightarrow> series_max ws = Some (Max (set ws))"
  by (cases ws) (simp_all add: fold_max_Max)

text \<open>
  C4 (as amended). On an empty relationship table the bound of the strength slider is
  not computed: the call raises Python's \<open>ValueError\<close>; the script declares no failure
  kinds of its own. On a non-empty table it is the largest weight of the table.
\<close>

theorem max_weight_result:
  "max_weight [] = Inl ValueError \<and>
   (edges_df \<noteq> [] \<longrightarrow> max_weight edges_df = Inr (Max (weight ` set edges_df)))"
proof -
  have "edges_df \<noteq> [] \<Longrightarrow> series_max (map weight edges_df) = Some (Max (weight ` set edges_df))"
    using series_max_Max [of "map weight edges_df"] by simp
  then show ?thesis by (simp add: max_weight_def py_int_def)
qed

theorem max_weight_result_witness:
  "scenario_edges \<noteq> [] \<and> max_weight scenario_edges = Inr 5 \<and> max_weight [] = Inl ValueError"
proof -
  have ne: "scenario_edges \<noteq> []" by (simp add: scenario_edges_def)
  have "Max (weight ` set scenario_edges) = 5" by (simp add: scenario_edges_def rel_def)
  with ne max_weight_result [of scenario_edges] show ?thesis by simp
qed

text \<open>
  The claim as written asks for a declared failure kind on the empty table; the value
  the code produces there is the raw \<open>ValueError\<close>.
\<close>

theorem max_weight_empty_counterexample: "max_weight [] = Inl ValueError"
  by (simp add: max_weight_def py_int_def)

section \<open>Relationship filter\<close>

lemma filtered_edges_filter:
  "filtered_edges p w es =
     filter (\<lambda>e. weight e \<ge> w \<and> (p \<noteq> ''All'' \<longrightarrow> predicate e = p)) es"
  by (simp add: filtered_edges_def Let_def conj_commute)

text \<open>
  C5 (as amended). The sentinel of the select box is spelled \<open>''All''\<close>. For every
  predicate filter and minimum weight the result is the table restricted, in table
  order, to the rows with \<open>weight \<ge> min_weight\<close> and, unless the filter is
  \<open>''All''\<close>, with that predicate; with \<open>''All''\<close> and minimum weight 1 a table whose
  weights respect the invariant \<open>weight \<ge> 1\<close> is returned unchanged.
\<close>

theorem filtered_edges_result:
  "filtered_edges p w es =
     filter (\<lambda>e. weight e \<ge> w \<and> (p \<noteq> ''All'' \<longrightarrow> predicate e = p)) es \<and>
   ((\<forall>e \<in> set es. weight e \<ge> 1) \<longrightarrow> filtered_edges ''All'' 1 es = es)"
proof -
  have "(\<forall>e \<in> set es. weight e \<ge> 1) \<Longrightarrow> filter (\<lambda>e. weight e \<ge> 1) es = es"
    by (induction es) simp_all
  then show ?thesis by (simp add: filtered_edges_filter)
qed

theorem filtered_edges_result_witness:
  "filtered_edges ''All'' 1 scenario_edges = scenario_edges \<and>
   filtered_edges ''All'' 2 scenario_edges =
     [rel ''A'' ''regulates'' ''B'' 3, rel ''A'' ''interacts'' ''C'' 5]"
proof -
  have inv: "\<forall>e \<in> set scenario_edges. weight e \<ge> 1"
    by (simp add: scenario_edges_def rel_def)
  have a: "filtered_edges ''All'' 1 scenario_edges = scenario_edges"
    using filtered_edges_result [of "''All''" 1 scenario_edges] inv by blast
  have b: "filtered_edges ''All'' 2 scenario_edges =
     [rel ''A'' ''regulates'' ''B'' 3, rel ''A'' ''interacts'' ''C'' 5]"
    by (simp add: filtered_edges_filter scenario_edges_def rel_def)
  from a b show ?thesis by simp
qed

text \<open>
  The lower-case word \<open>''all''\<close> is an ordinary predicate name for the code: in a table
  that has a relationship of that type (so that the select box offers it), choosing it
  keeps only those rows. The table's largest weight is 2, so the slider is accepted
  and the filter runs.
\<close>

theorem filtered_edges_all_counterexample:
  "min_weight_slider all_typed_edges = Inr (1, 2) \<and>
   filtered_edges ''all'' 1 all_typed_edges = [rel ''A'' ''all'' ''B'' 2]"
  by (simp add: min_weight_slider_def max_weight_def py_int_def filtered_edges_filter
      all_typed_edges_def rel_def)

section \<open>Relationships per source document\<close>

lemma all_sources_Cons:
  "all_sources (e # es) =
     (case sources e of None \<Rightarrow> [] | Some s \<Rightarrow> split_on CHR '','' s) @ all_sources es"
  by (simp add: all_sources_def List.map_filter_simps split: option.splits)

lemma count_list_app: "count_list (xs @ ys) x = count_list xs x + count_list ys x"
  by (induction xs) simp_all

text \<open>
  C8 (as amended). Duplicates inside one \<open>sources\<close> field are not collapsed: what a
  relationship adds to a document's count is the number of times the identifier
  occurs among the comma-separated pieces of its field.
\<close>

theorem source_counts_multiplicity:
  "source_counts es doc = sum_list (map (\<lambda>e. row_mentions e doc) es)"
proof (induction es)
  case Nil
  show ?case by (simp add: source_counts_def all_sources_def List.map_filter_simps)
next
  case (Cons e es)
  then show ?case
    by (simp add: source_counts_def all_sources_Cons count_list_app row_mentions_def
        split: option.splits)
qed

text \<open>One relationship whose field names the document \<open>d1\<close> twice counts twice for it.\<close>

theorem source_counts_duplicate_counterexample:
  "source_counts [twice_sourced] ''d1'' = 2"
  by (simp add: source_counts_def all_sources_def List.map_filter_simps rel_def
      twice_sourced_def)

section \<open>Density\<close>

text \<open>
  C6 (as amended). For a directed graph with at least two entities the density is
  \<^verbatim>\<open>|E| / (|V| * (|V| - 1))\<close>, the convention of networkx for directed graphs: without
  the factor 2.
\<close>

theorem density_directed:
  "directed G \<Longrightarrow> 2 \<le> length (nodes G) \<Longrightarrow>
   density G =
     real (length (edges G)) / (real (length (nodes G)) * (real (length (nodes G)) - 1))"
  by (simp add: density_def Let_def)

theorem density_directed_witness:
  "directed scenario_graph \<and> 2 \<le> length (nodes scenario_graph) \<and>
   density scenario_graph = 1 / 2"
proof -
  have d: "directed scenario_graph" by (simp add: scenario_graph_def)
  have n: "2 \<le> length (nodes scenario_graph)" by (simp add: scenario_graph_def)
  have "density scenario_graph = 1 / 2"
    using density_directed [OF d n] by (simp add: scenario_graph_def)
  with d n show ?thesis by simp
qed

text \<open>On the three-entity scenario the formula with the factor 2 gives 1, the code 1/2.\<close>

theorem density_factor_two_counterexample:
  "density scenario_graph \<noteq>
     2 * real (length (edges scenario_graph)) /
       (real (length (nodes scenario_graph)) * (real (length (nodes scenario_graph)) - 1))"
  by (simp add: density_def scenario_graph_def)

section \<open>PageRank ranking\<close>

lemma filter_take_prefix:
  "filter P (take n xs) = take (length (filter P (take n xs))) (filter P xs)"
proof (induction xs arbitrary: n)
  case Nil
  show ?case by simp
next
  case (Cons x xs)
  show ?case
  proof (cases n)
    case 0
    then show ?thesis by simp
  next
    case (Suc m)
    with Cons [of m] show ?thesis by simp
  qed
qed

lemma sorted_reverse_mset: "mset (sorted_reverse key xs) = mset xs"
  by (simp add: sorted_reverse_def)

lemma sorted_reverse_stable:
  "filter (\<lambda>x. key x = k) (sorted_reverse key xs) = filter (\<lambda>x. key x = k) xs"
proof -
  have "filter (\<lambda>x. key x = k) (sort_key key (rev xs)) = filter (\<lambda>x. key x = k) (rev xs)"
    by (rule sort_key_stable)
  then show ?thesis by (simp add: sorted_reverse_def rev_filter [symmetric])
qed

lemma sorted_reverse_desc:
  "sorted_wrt (\<lambda>a b. key a \<ge> key b) (sorted_reverse key xs)"
proof -
  have "sorted (map key (sort_key key (rev xs)))" by simp
  then have "sorted_wrt (\<lambda>a b. key a \<le> key b) (sort_key key (rev xs))"
    by (simp add: sorted_wrt_map)
  then show ?thesis by (simp add: sorted_reverse_def sorted_wrt_rev)
qed

text \<open>
  C7 (as amended). The ranking holds at most 15 pairs, a prefix of a rearrangement of
  the scores that is descending by score; entries of equal score stay in the order of
  the score table, that is in the graph's node order, not in the order of their names:
  the entries of any one score in the ranking are an initial part of the entries of
  that score in the table. The result is a function of the table, so it is the same on
  every run.
\<close>

theorem top_pagerank_order:
  "length (top_pagerank pr) \<le> 15 \<and>
   sorted_wrt score_desc (top_pagerank pr) \<and>
   top_pagerank pr = take 15 (sorted_reverse snd pr) \<and>
   mset (sorted_reverse snd pr) = mset pr \<and>
   (\<exists>n. filter (\<lambda>p. snd p = s) (top_pagerank pr) = take n (filter (\<lambda>p. snd p = s) pr))"
proof -
  have "sorted_wrt score_desc (sorted_reverse snd pr)"
    using sorted_reverse_desc [of snd pr] by (simp add: score_desc_def [abs_def])
  then have srt: "sorted_wrt score_desc (top_pagerank pr)"
    by (simp add: top_pagerank_def sorted_wrt_take)
  have "filter (\<lambda>p. snd p = s) (top_pagerank pr) =
      take (length (filter (\<lambda>p. snd p = s) (top_pagerank pr)))
        (filter (\<lambda>p. snd p = s) (sorted_reverse snd pr))"
    unfolding top_pagerank_def by (rule filter_take_prefix)
  then have "\<exists>n. filter (\<lambda>p. snd p = s) (top_pagerank pr) =
      take n (filter (\<lambda>p. snd p = s) pr)"
    unfolding sorted_reverse_stable by blast
  with srt show ?thesis by (simp add: top_pagerank_def sorted_reverse_mset)
qed

text \<open>
  Two entities of equal score, listed as \<open>b\<close>, \<open>a\<close> in the graph: the ranking keeps
  \<open>b\<close> first, although \<open>a\<close> precedes \<open>b\<close> lexicographically.
\<close>

theorem top_pagerank_tie_counterexample:
  "map fst (top_pagerank tied_scores) = [''b'', ''a''] \<and> ''a'' < ''b''"
  by (simp add: top_pagerank_def sorted_reverse_def tied_scores_def)

section \<open>Entity search\<close>

lemma bool_index_str_contains:
  "bool_index df (str_contains test (Some False) (map f df)) =
     Inr (filter (\<lambda>r. case f r of None \<Rightarrow> False | Some n \<Rightarrow> test n) df)"
proof -
  have no: "None \<notin> set (str_contains test (Some False) col)" for col
    by (induction col) (auto simp: str_contains_def split: option.splits)
  have "map fst (filter (\<lambda>(row, keep). keep = Some True)
          (zip df (str_contains test (Some False) (map f df)))) =
        filter (\<lambda>r. case f r of None \<Rightarrow> False | Some n \<Rightarrow> test n) df"
    by (induction df) (auto simp: str_contains_def split: option.splits)
  with no show ?thesis by (simp add: bool_index_def)
qed

lemma str_accessor_text:
  "nodes_df = [] \<or> (\<exists>r \<in> set nodes_df. node r \<noteq> None) \<Longrightarrow>
   str_accessor (map node nodes_df) = Inr (map node nodes_df)"
  by (auto simp: str_accessor_def)


lemma str_accessor_cases:
  "str_accessor (map node nodes_df) = Inl AttributeError \<and> nodes_df \<noteq> [] \<and>
     (\<forall>r \<in> set nodes_df. node r = None) \<or>
   str_accessor (map node nodes_df) = Inr (map node nodes_df) \<and>
     (nodes_df = [] \<or> (\<exists>r \<in> set nodes_df. node r \<noteq> None))"
  by (auto simp: str_accessor_def)

lemma matches_with_filter:
  "nodes_df = [] \<or> (\<exists>r \<in> set nodes_df. node r \<noteq> None) \<Longrightarrow>
   matches_with test nodes_df =
     Inr (filter (\<lambda>r. case node r of None \<Rightarrow> False | Some n \<Rightarrow> test n) nodes_df)"
  by (simp add: matches_with_def str_accessor_text bool_index_str_contains)



lemma default_na_raises:
  "None \<in> set (map node nodes_df) \<Longrightarrow>
   bool_index nodes_df (str_contains test None (map node nodes_df)) = Inl ValueError"
proof -
  assume "None \<in> set (map node nodes_df)"
  then have "None \<in> set (str_contains test None (map node nodes_df))"
    by (force simp: str_contains_def)
  then show ?thesis by (simp add: bool_index_def)
qed

lemma re_parse_plain:
  "set t \<inter> set re_special = {} \<Longrightarrow> re_parse t = Some (map Lit t)"
proof (induction t)
  case Nil
  show ?case by simp
next
  case (Cons c t)
  have "CHR ''.'' \<in> set re_special" by (simp add: re_special_def)
  with Cons.prems have "c \<noteq> CHR ''.''" by auto
  with Cons show ?case by simp
qed

lemma re_compile_plain:
  assumes "set t \<inter> set re_special = {}"
  shows "re_compile t = Some (Inr (map Lit t))"
proof -
  have "set ''*+?'' \<subseteq> set re_special" by (simp add: re_special_def)
  with assms have "t \<noteq> [] \<Longrightarrow> hd t \<notin> set ''*+?''" by (cases t) auto
  with re_parse_plain [OF assms] show ?thesis by (auto simp: re_compile_def)
qed

lemma search_matches_cases:
  "search_matches search_term nodes_df = None \<or>
   search_matches search_term nodes_df = Some (Inl ReError) \<or>
   search_matches search_term nodes_df = Some (Inl AttributeError) \<or>
   (\<exists>rs. search_matches search_term nodes_df =
      Some (Inr (filter (\<lambda>r. case node r of None \<Rightarrow> False | Some n \<Rightarrow> re_search rs n)
        nodes_df)))"
proof (cases "str_accessor (map node nodes_df)")
  case (Inl err)
  with str_accessor_cases [of nodes_df] show ?thesis by (auto simp: search_matches_def)
next
  case (Inr col)
  show ?thesis
  proof (cases "re_compile search_term")
    case None
    with Inr show ?thesis by (simp add: search_matches_def)
  next
    case (Some c)
    show ?thesis
    proof (cases c)
      case (Inl err)
      with Some have "err = ReError" by (auto simp: re_compile_def split: if_splits)
      with Inl Some Inr show ?thesis by (simp add: search_matches_def)
    next
      case (Inr rs)
      with Some \<open>str_accessor (map node nodes_df) = Inr col\<close>
      have "search_matches search_term nodes_df = Some (matches_with (re_search rs) nodes_df)"
        by (simp add: search_matches_def)
      moreover from \<open>str_accessor (map node nodes_df) = Inr col\<close> str_accessor_cases [of nodes_df]
      have "nodes_df = [] \<or> (\<exists>r \<in> set nodes_df. node r \<noteq> None)" by auto
      ultimately show ?thesis using matches_with_filter [of nodes_df "re_search rs"] by auto
    qed
  qed
qed

lemma re_match_Lit:
  "re_match (map Lit t) s = starts_with (map py_lower t) (map py_lower s)"
proof (induction t arbitrary: s)
  case Nil
  show ?case by simp
next
  case (Cons p t)
  then show ?case by (cases s) (auto simp: eq_commute)
qed

lemma re_search_Lit: "re_search (map Lit t) s = ci_substring t s"
  unfolding ci_substring_def
proof (induction s)
  case Nil
  show ?case using re_match_Lit [of t "[]"] by simp
next
  case (Cons c s)
  then show ?case using re_match_Lit [of t "c # s"] by simp
qed

lemma starts_with_append: "starts_with t s \<longleftrightarrow> (\<exists>post. s = t @ post)"
proof (induction t s rule: starts_with.induct)
  case (1 s)
  show ?case by simp
next
  case (2 p ps)
  show ?case by simp
next
  case (3 p ps c cs)
  then show ?case by auto
qed

lemma substring_of_append: "substring_of t s \<longleftrightarrow> (\<exists>pre post. s = pre @ t @ post)"
proof (induction s)
  case Nil
  show ?case by (simp add: starts_with_append)
next
  case (Cons c s)
  show ?case
  proof
    assume "substring_of t (c # s)"
    then consider "starts_with t (c # s)" | "substring_of t s" by auto
    then show "\<exists>pre post. c # s = pre @ t @ post"
    proof cases
      case 1
      then obtain post where "c # s = t @ post" by (auto simp: starts_with_append)
      then have "c # s = [] @ t @ post" by simp
      then show ?thesis by blast
    next
      case 2
      with Cons obtain pre post where "s = pre @ t @ post" by auto
      then have "c # s = (c # pre) @ t @ post" by simp
      then show ?thesis by blast
    qed
  next
    assume "\<exists>pre post. c # s = pre @ t @ post"
    then obtain pre post where eq: "c # s = pre @ t @ post" by blast
    show "substring_of t (c # s)"
    proof (cases pre)
      case Nil
      with eq have "starts_with t (c # s)" by (auto simp: starts_with_append)
      then show ?thesis by simp
    next
      case (Cons a pre')
      with eq have "s = pre' @ t @ post" by simp
      with Cons.IH have "substring_of t s" by blast
      then show ?thesis by simp
    qed
  qed
qed

lemmas search_eval =
  search_matches_def re_compile_def matches_with_def str_accessor_def bool_index_def
  str_contains_def re_special_def py_lower_def

lemma search_matches_plain:
  assumes "set t \<inter> set re_special = {}"
    and "nodes_df = [] \<or> (\<exists>r \<in> set nodes_df. node r \<noteq> None)"
  shows "search_matches t nodes_df =
     Some (Inr (filter (\<lambda>r. case node r of None \<Rightarrow> False | Some n \<Rightarrow> ci_substring t n)
       nodes_df))"
  by (simp add: search_matches_def str_accessor_text [OF assms(2)] re_compile_plain [OF assms(1)]
      matches_with_filter [OF assms(2)] re_search_Lit [abs_def])

text \<open>
  C1. The search box is labelled as taking an entity name or keyword, but the term is
  compiled as a regular expression. For the term \<open>''.''\<close> the entity \<open>abc\<close> is
  reported as a match although the term does not occur in its name; for the term
  \<open>''+''\<close> the search raises instead of finding the entity \<open>a+b\<close>, in whose name
  the term occurs.
\<close>

theorem search_term_is_pattern:
  "search_matches ''.'' [entity_row ''abc'' ''gene''] = Some (Inr [entity_row ''abc'' ''gene'']) \<and>
   \<not> ci_substring ''.'' ''abc'' \<and>
   search_matches ''+'' [entity_row ''a+b'' ''gene''] = Some (Inl ReError) \<and>
   ci_substring ''+'' ''a+b''"
  by (simp add: search_eval entity_row_def ci_substring_def)




lemma expander_counts:
  "node row = Some name \<Longrightarrow>
   outgoing_count (expander edges_df row) =
     card {i. i < length edges_df \<and> subject (edges_df ! i) = name} \<and>
   incoming_count (expander edges_df row) =
     card {i. i < length edges_df \<and> object (edges_df ! i) = name}"
  by (simp add: expander_def related_out_def related_in_def length_filter_conv_card)

lemma found_entities:
  assumes "entity_search search_term nodes_df edges_df = Some (Inr (Found n ms))"
    and "m \<in> set ms"
  shows "\<exists>row name. row \<in> set nodes_df \<and> node row = Some name \<and> m = expander edges_df row"
proof -
  from assms(1) have "search_term \<noteq> []"
    by (auto simp: entity_search_def split: if_splits)
  with assms(1) obtain z where z: "search_matches search_term nodes_df = Some z"
    and mz: "map_sum id (show_matches edges_df) z = Inr (Found n ms)"
    by (auto simp: entity_search_def)
  from mz obtain ms0 where "z = Inr ms0" and v: "show_matches edges_df ms0 = Found n ms"
    by (cases z) auto
  with z have s: "search_matches search_term nodes_df = Some (Inr ms0)" by simp
  from v have "ms = map (expander edges_df) (take 20 ms0)" by (simp add: show_matches_def)
  with assms(2) obtain row where r: "row \<in> set (take 20 ms0)" and m: "m = expander edges_df row"
    by auto
  from r have r0: "row \<in> set ms0" by (rule in_set_takeD)
  from s obtain test where
    "ms0 = filter (\<lambda>r. case node r of None \<Rightarrow> False | Some n \<Rightarrow> test n) nodes_df"
    using search_matches_cases [of search_term nodes_df] by auto
  with r0 have "row \<in> set nodes_df" and "node row \<noteq> None" by (auto split: option.splits)
  with m show ?thesis by auto
qed

text \<open>
  C9. Every entity that the search shows carries as outgoing and incoming counts the
  numbers of rows of the whole relationship table whose subject, respectively object,
  is its name; the limits of 20 matches and 5 sample relationships do not enter them.
  With the single entity \<open>D\<close> and a relationship table that never mentions it, the
  search for \<open>D\<close> finds one match, with both counts 0.
\<close>

theorem connection_counts_exact:
  "(entity_search search_term nodes_df edges_df = Some (Inr (Found n ms)) \<and> m \<in> set ms \<longrightarrow>
     (\<exists>name. entity m = Some name \<and>
        outgoing_count m = card {i. i < length edges_df \<and> subject (edges_df ! i) = name} \<and>
        incoming_count m = card {i. i < length edges_df \<and> object (edges_df ! i) = name})) \<and>
   ((\<forall>e \<in> set edges_df. subject e \<noteq> ''D'' \<and> object e \<noteq> ''D'') \<longrightarrow>
      entity_search ''D'' [entity_row ''D'' l] edges_df =
        Some (Inr (Found 1 [\<lparr>entity = Some ''D'', entity_label = l, outgoing_count = 0,
          incoming_count = 0, sample_outgoing = []\<rparr>])))"
proof -
  have 1: "entity_search search_term nodes_df edges_df = Some (Inr (Found n ms)) \<and> m \<in> set ms \<longrightarrow>
     (\<exists>name. entity m = Some name \<and>
        outgoing_count m = card {i. i < length edges_df \<and> subject (edges_df ! i) = name} \<and>
        incoming_count m = card {i. i < length edges_df \<and> object (edges_df ! i) = name})"
  proof
    assume a: "entity_search search_term nodes_df edges_df = Some (Inr (Found n ms)) \<and> m \<in> set ms"
    then obtain row name where r: "node row = Some name" and m: "m = expander edges_df row"
      using found_entities [of search_term nodes_df edges_df n ms m] by blast
    from r have "entity (expander edges_df row) = Some name" by (simp add: expander_def)
    with expander_counts [OF r, of edges_df] m show "\<exists>name. entity m = Some name \<and>
        outgoing_count m = card {i. i < length edges_df \<and> subject (edges_df ! i) = name} \<and>
        incoming_count m = card {i. i < length edges_df \<and> object (edges_df ! i) = name}"
      by blast
  qed
  have 2: "(\<forall>e \<in> set edges_df. subject e \<noteq> ''D'' \<and> object e \<noteq> ''D'') \<longrightarrow>
      entity_search ''D'' [entity_row ''D'' l] edges_df =
        Some (Inr (Found 1 [\<lparr>entity = Some ''D'', entity_label = l, outgoing_count = 0,
          incoming_count = 0, sample_outgoing = []\<rparr>]))"
  proof
    assume iso: "\<forall>e \<in> set edges_df. subject e \<noteq> ''D'' \<and> object e \<noteq> ''D''"
    then have o: "filter (\<lambda>e. subject e = ''D'') edges_df = []"
      and i: "filter (\<lambda>e. object e = ''D'') edges_df = []"
      by (simp_all add: filter_empty_conv)
    have s: "search_matches ''D'' [entity_row ''D'' l] = Some (Inr [entity_row ''D'' l])"
      by (simp add: search_eval entity_row_def)
    show "entity_search ''D'' [entity_row ''D'' l] edges_df =
        Some (Inr (Found 1 [\<lparr>entity = Some ''D'', entity_label = l, outgoing_count = 0,
          incoming_count = 0, sample_outgoing = []\<rparr>]))"
      by (simp add: entity_search_def s show_matches_def)
        (simp add: expander_def related_out_def related_in_def entity_row_def o i)
  qed
  show ?thesis by (intro conjI) (rule 1 2)+
qed

theorem connection_counts_exact_witness:
  "entity_search ''D'' [entity_row ''D'' ''gene''] scenario_edges =
     Some (Inr (Found 1 [\<lparr>entity = Some ''D'', entity_label = ''gene'', outgoing_count = 0,
       incoming_count = 0, sample_outgoing = []\<rparr>]))"
proof -
  have "\<forall>e \<in> set scenario_edges. subject e \<noteq> ''D'' \<and> object e \<noteq> ''D''"
    by (simp add: scenario_edges_def rel_def)
  with connection_counts_exact [of "''D''" "[]" scenario_edges 0 "[]" undefined "''gene''"]
  show ?thesis by blast
qed

section \<open>Connectivity\<close>

subsection \<open>Distances in a relation\<close>

lemma at_dist_0: "at_dist R s 0 = {s}"
  by (auto simp: at_dist_def)

lemma at_dist_Least:
  assumes "(s, w) \<in> R ^^ n"
  shows "w \<in> at_dist R s (LEAST j. (s, w) \<in> R ^^ j)" and "(LEAST j. (s, w) \<in> R ^^ j) \<le> n"
proof -
  from assms have "(s, w) \<in> R ^^ (LEAST j. (s, w) \<in> R ^^ j)" by (rule LeastI)
  moreover have "(s, w) \<notin> R ^^ j" if "j < (LEAST j. (s, w) \<in> R ^^ j)" for j
    using that by (rule not_less_Least)
  ultimately show "w \<in> at_dist R s (LEAST j. (s, w) \<in> R ^^ j)"
    by (simp add: at_dist_def)
  from assms show "(LEAST j. (s, w) \<in> R ^^ j) \<le> n" by (rule Least_le)
qed

lemma at_dist_unique: "w \<in> at_dist R s k \<Longrightarrow> w \<in> at_dist R s j \<Longrightarrow> j = k"
  by (metis (mono_tags, lifting) at_dist_def linorder_neqE_nat mem_Collect_eq)

lemma at_dist_is_Least: "w \<in> at_dist R s k \<Longrightarrow> (LEAST j. (s, w) \<in> R ^^ j) = k"
proof -
  assume a: "w \<in> at_dist R s k"
  then have "(s, w) \<in> R ^^ k" by (simp add: at_dist_def)
  then have "w \<in> at_dist R s (LEAST j. (s, w) \<in> R ^^ j)" by (rule at_dist_Least)
  with a show ?thesis by (rule at_dist_unique)
qed

lemma within_at_dist: "(\<Union>j\<le>k. at_dist R s j) = {w. \<exists>j\<le>k. (s, w) \<in> R ^^ j}"
proof (intro set_eqI iffI)
  fix w assume "w \<in> (\<Union>j\<le>k. at_dist R s j)"
  then show "w \<in> {w. \<exists>j\<le>k. (s, w) \<in> R ^^ j}" by (auto simp: at_dist_def)
next
  fix w assume "w \<in> {w. \<exists>j\<le>k. (s, w) \<in> R ^^ j}"
  then obtain j where j: "j \<le> k" "(s, w) \<in> R ^^ j" by blast
  from j(2) have "w \<in> at_dist R s (LEAST j. (s, w) \<in> R ^^ j)"
    and "(LEAST j. (s, w) \<in> R ^^ j) \<le> j"
    by (rule at_dist_Least)+
  with j(1) show "w \<in> (\<Union>j\<le>k. at_dist R s j)" by (meson UN_I atMost_iff le_trans)
qed

lemma at_dist_Suc: "at_dist R s (Suc k) = R `` at_dist R s k - (\<Union>j\<le>k. at_dist R s j)"
proof (intro set_eqI iffI)
  fix w assume a: "w \<in> at_dist R s (Suc k)"
  then have r: "(s, w) \<in> R ^^ Suc k" and m: "\<And>j. j < Suc k \<Longrightarrow> (s, w) \<notin> R ^^ j"
    by (simp_all add: at_dist_def)
  from r obtain v where v: "(s, v) \<in> R ^^ k" "(v, w) \<in> R" by auto
  have "(s, v) \<notin> R ^^ j" if "j < k" for j
  proof
    assume "(s, v) \<in> R ^^ j"
    with v(2) have "(s, w) \<in> R ^^ Suc j" by auto
    moreover from that have "Suc j < Suc k" by simp
    ultimately show False using m by blast
  qed
  with v(1) have "v \<in> at_dist R s k" by (simp add: at_dist_def)
  with v(2) have 1: "w \<in> R `` at_dist R s k" by blast
  have 2: "w \<notin> (\<Union>j\<le>k. at_dist R s j)"
    unfolding within_at_dist using m by (auto simp: less_Suc_eq_le)
  from 1 2 show "w \<in> R `` at_dist R s k - (\<Union>j\<le>k. at_dist R s j)" by blast
next
  fix w assume a: "w \<in> R `` at_dist R s k - (\<Union>j\<le>k. at_dist R s j)"
  then obtain v where v: "v \<in> at_dist R s k" "(v, w) \<in> R" by blast
  from v(1) have "(s, v) \<in> R ^^ k" by (simp add: at_dist_def)
  with v(2) have r: "(s, w) \<in> R ^^ Suc k" by auto
  from a have "w \<notin> {w. \<exists>j\<le>k. (s, w) \<in> R ^^ j}" unfolding within_at_dist by blast
  then have "\<And>j. j < Suc k \<Longrightarrow> (s, w) \<notin> R ^^ j" by (auto simp: less_Suc_eq_le)
  with r show "w \<in> at_dist R s (Suc k)" by (simp add: at_dist_def)
qed

lemma at_dist_empty_Suc: "at_dist R s k = {} \<Longrightarrow> at_dist R s (Suc k) = {}"
  by (simp add: at_dist_Suc)

lemma at_dist_empty_ge: "at_dist R s k = {} \<Longrightarrow> k \<le> n \<Longrightarrow> at_dist R s n = {}"
  by (induction n) (auto simp: le_Suc_eq at_dist_empty_Suc)

lemma reach_at_dist: "R\<^sup>* `` {s} = (\<Union>k. at_dist R s k)"
proof (intro set_eqI iffI)
  fix w assume "w \<in> R\<^sup>* `` {s}"
  then obtain n where "(s, w) \<in> R ^^ n" by (auto simp: rtrancl_power)
  then have "w \<in> at_dist R s (LEAST j. (s, w) \<in> R ^^ j)" by (rule at_dist_Least)
  then show "w \<in> (\<Union>k. at_dist R s k)" by blast
next
  fix w assume "w \<in> (\<Union>k. at_dist R s k)"
  then obtain k where "(s, w) \<in> R ^^ k" by (auto simp: at_dist_def)
  then show "w \<in> R\<^sup>* `` {s}" by (auto simp: rtrancl_power)
qed

subsection \<open>The breadth-first levels\<close>

lemma bfs_levels_Nil: "bfs_levels G seen [] = []"
  by (simp add: bfs_levels.simps)

lemma bfs_levels_Cons:
  "thislevel \<noteq> [] \<Longrightarrow>
   bfs_levels G seen thislevel =
     thislevel # bfs_levels G (seen @ next_level G seen thislevel) (next_level G seen thislevel)"
  by (subst bfs_levels.simps) (simp add: Let_def)

lemma set_next_level:
  "set (next_level G seen thislevel) = nbrs G `` set thislevel - set seen"
  by (auto simp: next_level_def nbrs_def)

lemma distinct_next_level: "distinct (next_level G seen thislevel)"
  by (simp add: next_level_def)

lemma bfs_levels_nonempty: "l \<in> set (bfs_levels G seen thislevel) \<Longrightarrow> l \<noteq> []"
proof (induction G seen thislevel rule: bfs_levels.induct)
  case (1 G seen thislevel)
  show ?case
  proof (cases "thislevel = []")
    case True
    with "1.prems" show ?thesis by (simp add: bfs_levels_Nil)
  next
    case False
    with "1.prems" "1.IH" [OF False refl] show ?thesis
      by (auto simp: bfs_levels_Cons)
  qed
qed

lemma bfs_levels_distinct:
  "distinct thislevel \<Longrightarrow> set thislevel \<subseteq> set seen \<Longrightarrow>
   distinct (concat (bfs_levels G seen thislevel)) \<and>
   set (concat (bfs_levels G seen thislevel)) \<subseteq> set thislevel \<union> - set seen"
proof (induction G seen thislevel rule: bfs_levels.induct)
  case (1 G seen thislevel)
  show ?case
  proof (cases "thislevel = []")
    case True
    then show ?thesis by (simp add: bfs_levels_Nil)
  next
    case False
    let ?nl = "next_level G seen thislevel"
    let ?rest = "concat (bfs_levels G (seen @ ?nl) ?nl)"
    have "distinct ?nl" by (rule distinct_next_level)
    moreover have "set ?nl \<subseteq> set (seen @ ?nl)" by simp
    ultimately have ih: "distinct ?rest" "set ?rest \<subseteq> set ?nl \<union> - set (seen @ ?nl)"
      using "1.IH" [OF False refl] by blast+
    have nl: "set ?nl \<inter> set seen = {}" by (auto simp: set_next_level)
    with ih(2) have rest: "set ?rest \<inter> set seen = {}" by auto
    with "1.prems"(2) have "set thislevel \<inter> set ?rest = {}" by blast
    with ih(1) "1.prems"(1) have "distinct (thislevel @ ?rest)" by simp
    moreover from rest have "set (thislevel @ ?rest) \<subseteq> set thislevel \<union> - set seen" by auto
    ultimately show ?thesis by (simp add: bfs_levels_Cons [OF False])
  qed
qed

lemma bfs_levels_at_dist:
  "set thislevel = at_dist (nbrs G) s k \<Longrightarrow>
   set seen = (\<Union>j\<le>k. at_dist (nbrs G) s j) \<Longrightarrow>
   map set (bfs_levels G seen thislevel) =
     map (at_dist (nbrs G) s) [k ..< k + length (bfs_levels G seen thislevel)] \<and>
   at_dist (nbrs G) s (k + length (bfs_levels G seen thislevel)) = {}"
proof (induction G seen thislevel arbitrary: k rule: bfs_levels.induct)
  case (1 G seen thislevel)
  show ?case
  proof (cases "thislevel = []")
    case True
    with "1.prems"(1) show ?thesis by (simp add: bfs_levels_Nil)
  next
    case False
    let ?nl = "next_level G seen thislevel"
    let ?rest = "bfs_levels G (seen @ ?nl) ?nl"
    have nl: "set ?nl = at_dist (nbrs G) s (Suc k)"
      by (simp add: set_next_level "1.prems" at_dist_Suc)
    have "(\<Union>j\<le>Suc k. at_dist (nbrs G) s j) =
        (\<Union>j\<le>k. at_dist (nbrs G) s j) \<union> at_dist (nbrs G) s (Suc k)"
      by (simp add: atMost_Suc Un_commute)
    with nl "1.prems"(2) have seen: "set (seen @ ?nl) = (\<Union>j\<le>Suc k. at_dist (nbrs G) s j)"
      by simp
    from "1.IH" [OF False refl nl seen]
    have ih: "map set ?rest = map (at_dist (nbrs G) s) [Suc k ..< Suc k + length ?rest]"
      and e: "at_dist (nbrs G) s (Suc k + length ?rest) = {}"
      by blast+
    have "[k ..< k + Suc (length ?rest)] = k # [Suc k ..< k + Suc (length ?rest)]"
      by (rule upt_conv_Cons) simp
    then have "[k ..< k + Suc (length ?rest)] = k # [Suc k ..< Suc k + length ?rest]"
      by (simp only: add_Suc_right add_Suc)
    with ih e "1.prems"(1) show ?thesis by (simp add: bfs_levels_Cons [OF False])
  qed
qed

text \<open>The search from one source.\<close>

lemma bfs_source_levels:
  "map set (bfs_levels G [s] [s]) =
     map (at_dist (nbrs G) s) [0 ..< length (bfs_levels G [s] [s])]"
  and bfs_source_last: "at_dist (nbrs G) s (length (bfs_levels G [s] [s])) = {}"
  using bfs_levels_at_dist [of "[s]" G s 0 "[s]"] by (simp_all add: at_dist_0)

lemma bfs_source_length: "0 < length (bfs_levels G [s] [s])"
  by (simp add: bfs_levels_Cons)

lemma at_dist_level_iff:
  "at_dist (nbrs G) s k \<noteq> {} \<longleftrightarrow> k < length (bfs_levels G [s] [s])"
proof
  assume "at_dist (nbrs G) s k \<noteq> {}"
  then show "k < length (bfs_levels G [s] [s])"
    using at_dist_empty_ge [OF bfs_source_last, of G s k] by (meson not_le)
next
  assume k: "k < length (bfs_levels G [s] [s])"
  then have "set (bfs_levels G [s] [s] ! k) = at_dist (nbrs G) s k"
    using bfs_source_levels [of G s]
    by (metis (no_types, lifting) add_0 length_map nth_map nth_upt)
  moreover from k have "bfs_levels G [s] [s] ! k \<noteq> []"
    using bfs_levels_nonempty nth_mem by blast
  ultimately show "at_dist (nbrs G) s k \<noteq> {}" by auto
qed

lemma set_plain_bfs: "set (plain_bfs G s) = (nbrs G)\<^sup>* `` {s}"
proof -
  let ?L = "bfs_levels G [s] [s]"
  have "set (plain_bfs G s) = \<Union> (set (map set ?L))" by (simp add: plain_bfs_def)
  also have "\<dots> = (\<Union>k<length ?L. at_dist (nbrs G) s k)"
    unfolding bfs_source_levels by auto
  also have "\<dots> = (\<Union>k. at_dist (nbrs G) s k)"
    using at_dist_level_iff [of G s] by blast
  finally show ?thesis by (simp add: reach_at_dist)
qed

lemma distinct_plain_bfs: "distinct (plain_bfs G s)"
  using bfs_levels_distinct [of "[s]" "[s]" G] by (simp add: plain_bfs_def)

subsection \<open>Components of the undirected graph\<close>

lemma wf_graph_edges:
  "wf_graph G \<Longrightarrow> (u, v) \<in> set (edges G) \<Longrightarrow> u \<in> set (nodes G) \<and> v \<in> set (nodes G)"
  by (auto simp: wf_graph_def)

lemma nbrs_to_undirected: "wf_graph G \<Longrightarrow> nbrs (to_undirected G) = linked G"
  by (auto simp: nbrs_def adj_def to_undirected_def linked_def dest: wf_graph_edges)

lemma nodes_to_undirected: "nodes (to_undirected G) = nodes G"
  by (simp add: to_undirected_def)

lemma sym_linked: "sym (linked G)"
  by (auto simp: sym_def linked_def)

lemma linked_nodes: "wf_graph G \<Longrightarrow> (u, v) \<in> linked G \<Longrightarrow> v \<in> set (nodes G)"
  by (auto simp: linked_def dest: wf_graph_edges)

lemma component_of_self: "v \<in> component_of G v"
  by (simp add: component_of_def)

lemma component_of_eq: "w \<in> component_of G v \<Longrightarrow> component_of G w = component_of G v"
proof -
  assume "w \<in> component_of G v"
  then have vw: "(v, w) \<in> (linked G)\<^sup>*" by (simp add: component_of_def)
  have "sym ((linked G)\<^sup>*)" by (rule sym_rtrancl [OF sym_linked])
  from this vw have wv: "(w, v) \<in> (linked G)\<^sup>*" by (rule symD)
  show ?thesis
  proof (intro set_eqI iffI)
    fix x assume "x \<in> component_of G w"
    then have "(w, x) \<in> (linked G)\<^sup>*" by (simp add: component_of_def)
    with vw have "(v, x) \<in> (linked G)\<^sup>*" by (rule rtrancl_trans)
    then show "x \<in> component_of G v" by (simp add: component_of_def)
  next
    fix x assume "x \<in> component_of G v"
    then have "(v, x) \<in> (linked G)\<^sup>*" by (simp add: component_of_def)
    with wv have "(w, x) \<in> (linked G)\<^sup>*" by (rule rtrancl_trans)
    then show "x \<in> component_of G w" by (simp add: component_of_def)
  qed
qed

lemma component_of_nodes:
  assumes "wf_graph G" "v \<in> set (nodes G)"
  shows "component_of G v \<subseteq> set (nodes G)"
proof
  fix w assume "w \<in> component_of G v"
  then have "(v, w) \<in> (linked G)\<^sup>*" by (simp add: component_of_def)
  then show "w \<in> set (nodes G)"
  proof (induction rule: rtrancl_induct)
    case base
    from assms(2) show ?case .
  next
    case (step y z)
    from assms(1) step(2) show ?case by (rule linked_nodes)
  qed
qed

lemma set_plain_bfs_component:
  "wf_graph G \<Longrightarrow> set (plain_bfs (to_undirected G) v) = component_of G v"
  by (simp add: set_plain_bfs nbrs_to_undirected component_of_def)

lemma length_plain_bfs:
  "wf_graph G \<Longrightarrow> length (plain_bfs (to_undirected G) v) = card (component_of G v)"
  using distinct_card [OF distinct_plain_bfs, of "to_undirected G" v]
  by (simp add: set_plain_bfs_component)

lemma finite_components: "finite (components G)"
  by (simp add: components_def)

lemma one_component_iff:
  assumes "v \<in> set (nodes G)"
  shows "card (components G) = 1 \<longleftrightarrow> set (nodes G) \<subseteq> component_of G v"
proof
  assume "card (components G) = 1"
  then obtain C where C: "components G = {C}" by (auto simp: card_1_singleton_iff)
  show "set (nodes G) \<subseteq> component_of G v"
  proof
    fix w assume "w \<in> set (nodes G)"
    with assms have "component_of G w \<in> components G" "component_of G v \<in> components G"
      by (simp_all add: components_def)
    with C have "component_of G w = component_of G v" by simp
    with component_of_self [of w G] show "w \<in> component_of G v" by simp
  qed
next
  assume a: "set (nodes G) \<subseteq> component_of G v"
  have "components G = {component_of G v}"
  proof (intro set_eqI iffI)
    fix C assume "C \<in> components G"
    then obtain w where "w \<in> set (nodes G)" "C = component_of G w"
      by (auto simp: components_def)
    with a component_of_eq [of w G v] show "C \<in> {component_of G v}" by auto
  next
    fix C assume "C \<in> {component_of G v}"
    with assms show "C \<in> components G" by (simp add: components_def)
  qed
  then show "card (components G) = 1" by simp
qed

lemma is_connected_iff:
  assumes "wf_graph G" "nodes G \<noteq> []"
  shows "is_connected (to_undirected G) = Inr (card (components G) = 1)"
proof -
  let ?v = "hd (nodes G)"
  from assms(2) have v: "?v \<in> set (nodes G)" by simp
  from assms(1) have d: "length (nodes G) = card (set (nodes G))"
    by (simp add: wf_graph_def distinct_card)
  have sub: "component_of G ?v \<subseteq> set (nodes G)" by (rule component_of_nodes [OF assms(1) v])
  have "card (component_of G ?v) = card (set (nodes G)) \<longleftrightarrow> component_of G ?v = set (nodes G)"
    using card_subset_eq [OF _ sub] by auto
  also have "\<dots> \<longleftrightarrow> set (nodes G) \<subseteq> component_of G ?v" using sub by auto
  also have "\<dots> \<longleftrightarrow> card (components G) = 1" by (rule one_component_iff [OF v, symmetric])
  finally show ?thesis
    using assms(2) by (simp add: is_connected_def nodes_to_undirected length_plain_bfs [OF assms(1)] d)
qed

lemma connected_components_count:
  assumes "wf_graph G"
  shows "(\<forall>v \<in> set seen. component_of G v \<subseteq> set seen) \<Longrightarrow>
    length (connected_components (to_undirected G) seen vs) =
      card (component_of G ` (set vs - set seen))"
proof (induction vs arbitrary: seen)
  case Nil
  show ?case by simp
next
  case (Cons v vs)
  show ?case
  proof (cases "v \<in> set seen")
    case True
    then have "set (v # vs) - set seen = set vs - set seen" by auto
    with True Cons.IH [OF Cons.prems] show ?thesis by simp
  next
    case False
    let ?c = "plain_bfs (to_undirected G) v"
    let ?C = "component_of G v"
    have c: "set ?c = ?C" by (rule set_plain_bfs_component [OF assms])
    have closed: "\<forall>w \<in> set (seen @ ?c). component_of G w \<subseteq> set (seen @ ?c)"
      using Cons.prems c component_of_eq [of _ G v] by auto
    have ih: "length (connected_components (to_undirected G) (seen @ ?c) vs) =
        card (component_of G ` (set vs - set (seen @ ?c)))"
      by (rule Cons.IH [OF closed])
    have split: "component_of G ` (set (v # vs) - set seen) =
        insert ?C (component_of G ` (set vs - set (seen @ ?c)))"
    proof (intro set_eqI iffI)
      fix X assume "X \<in> component_of G ` (set (v # vs) - set seen)"
      then obtain w where w: "w \<in> set (v # vs)" "w \<notin> set seen" "X = component_of G w" by blast
      show "X \<in> insert ?C (component_of G ` (set vs - set (seen @ ?c)))"
      proof (cases "w \<in> ?C")
        case True
        with w(3) component_of_eq [of w G v] show ?thesis by simp
      next
        case False
        with component_of_self [of v G] have "w \<noteq> v" by auto
        with w False c show ?thesis by auto
      qed
    next
      fix X assume "X \<in> insert ?C (component_of G ` (set vs - set (seen @ ?c)))"
      with False show "X \<in> component_of G ` (set (v # vs) - set seen)" by auto
    qed
    have fresh: "?C \<notin> component_of G ` (set vs - set (seen @ ?c))"
    proof
      assume "?C \<in> component_of G ` (set vs - set (seen @ ?c))"
      then obtain w where w: "w \<notin> set (seen @ ?c)" "?C = component_of G w" by blast
      from w(2) component_of_self [of w G] have "w \<in> ?C" by simp
      with w(1) c show False by simp
    qed
    have "card (component_of G ` (set (v # vs) - set seen)) =
        Suc (card (component_of G ` (set vs - set (seen @ ?c))))"
      unfolding split using fresh by (simp add: card_insert_disjoint)
    with ih False show ?thesis by (simp add: Let_def)
  qed
qed

lemma number_connected_components_eq:
  "wf_graph G \<Longrightarrow> number_connected_components (to_undirected G) = card (components G)"
  using connected_components_count [of G "[]" "nodes G"]
  by (simp add: number_connected_components_def nodes_to_undirected components_def)

subsection \<open>Distances, eccentricity and diameter\<close>

lemma length_concat_enumerate:
  "length (concat (map (\<lambda>(d, lvl). map (f d) lvl) (enumerate k L))) = length (concat L)"
  by (induction L arbitrary: k) simp_all

lemma snd_concat_enumerate:
  "snd ` set (concat (map (\<lambda>(d, lvl). map (\<lambda>w. (w, d)) lvl) (enumerate k L))) =
     {d. k \<le> d \<and> d < k + length L \<and> L ! (d - k) \<noteq> []}"
proof (induction L arbitrary: k)
  case Nil
  show ?case by simp
next
  case (Cons l L)
  have "{d. k \<le> d \<and> d < k + length (l # L) \<and> (l # L) ! (d - k) \<noteq> []} =
      (if l = [] then {} else {k}) \<union> {d. Suc k \<le> d \<and> d < Suc k + length L \<and> L ! (d - Suc k) \<noteq> []}"
  proof (intro set_eqI iffI)
    fix d assume "d \<in> {d. k \<le> d \<and> d < k + length (l # L) \<and> (l # L) ! (d - k) \<noteq> []}"
    then have d: "k \<le> d" "d < k + length (l # L)" "(l # L) ! (d - k) \<noteq> []" by simp_all
    show "d \<in> (if l = [] then {} else {k}) \<union>
        {d. Suc k \<le> d \<and> d < Suc k + length L \<and> L ! (d - Suc k) \<noteq> []}"
    proof (cases "d = k")
      case True
      with d(3) show ?thesis by simp
    next
      case False
      with d(1) have "Suc k \<le> d" by simp
      moreover from this have "d - k = Suc (d - Suc k)" by simp
      ultimately show ?thesis using d(2,3) by simp
    qed
  next
    fix d assume "d \<in> (if l = [] then {} else {k}) \<union>
        {d. Suc k \<le> d \<and> d < Suc k + length L \<and> L ! (d - Suc k) \<noteq> []}"
    then consider "d = k" "l \<noteq> []" | "Suc k \<le> d" "d < Suc k + length L" "L ! (d - Suc k) \<noteq> []"
      by (auto split: if_splits)
    then show "d \<in> {d. k \<le> d \<and> d < k + length (l # L) \<and> (l # L) ! (d - k) \<noteq> []}"
    proof cases
      case 1
      then show ?thesis by simp
    next
      case 2
      from 2(1) have "d - k = Suc (d - Suc k)" by simp
      with 2 show ?thesis by simp
    qed
  qed
  moreover have "snd ` set (map (\<lambda>w. (w, k)) l) = (if l = [] then {} else {k})"
    by (cases l) auto
  ultimately show ?case using Cons [of "Suc k"] by (simp add: image_Un)
qed

lemma length_shortest_path_length:
  "length (single_source_shortest_path_length G s) = length (plain_bfs G s)"
  by (simp add: single_source_shortest_path_length_def plain_bfs_def length_concat_enumerate)

lemma Max_below: "0 < n \<Longrightarrow> Max {d::nat. d < n} = n - 1"
  by (rule Max_eqI) auto

lemma max_shortest_path_length:
  "Max (set (map snd (single_source_shortest_path_length G s))) =
     length (bfs_levels G [s] [s]) - 1"
proof -
  let ?L = "bfs_levels G [s] [s]"
  have "snd ` set (single_source_shortest_path_length G s) =
      {d. d < length ?L \<and> ?L ! d \<noteq> []}"
    unfolding single_source_shortest_path_length_def using snd_concat_enumerate [of 0 ?L]
    by simp
  also have "\<dots> = {d. d < length ?L}"
    using bfs_levels_nonempty [of _ G "[s]" "[s]"] nth_mem [of _ ?L] by blast
  finally show ?thesis using Max_below [OF bfs_source_length, of G s] by simp
qed

lemma hops_image:
  assumes "wf_graph G" "s \<in> set (nodes G)" "set (nodes G) \<subseteq> component_of G s"
  shows "hops G s ` set (nodes G) = {d. d < length (bfs_levels (to_undirected G) [s] [s])}"
proof (intro set_eqI iffI)
  fix d assume "d \<in> hops G s ` set (nodes G)"
  then obtain w where w: "w \<in> set (nodes G)" "d = hops G s w" by blast
  with assms(3) have "(s, w) \<in> (linked G)\<^sup>*" by (auto simp: component_of_def)
  then obtain n where "(s, w) \<in> linked G ^^ n" by (auto simp: rtrancl_power)
  then have "w \<in> at_dist (linked G) s (hops G s w)"
    unfolding hops_def by (rule at_dist_Least)
  then have "at_dist (nbrs (to_undirected G)) s d \<noteq> {}"
    using w(2) by (auto simp: nbrs_to_undirected [OF assms(1)])
  then show "d \<in> {d. d < length (bfs_levels (to_undirected G) [s] [s])}"
    by (simp add: at_dist_level_iff)
next
  fix d assume "d \<in> {d. d < length (bfs_levels (to_undirected G) [s] [s])}"
  then have "at_dist (nbrs (to_undirected G)) s d \<noteq> {}" by (simp add: at_dist_level_iff)
  then obtain w where w: "w \<in> at_dist (linked G) s d"
    by (auto simp: nbrs_to_undirected [OF assms(1)])
  then have h: "hops G s w = d" unfolding hops_def by (rule at_dist_is_Least)
  from w have "(s, w) \<in> (linked G)\<^sup>*" by (auto simp: at_dist_def rtrancl_power)
  then have "w \<in> component_of G s" by (simp add: component_of_def)
  with component_of_nodes [OF assms(1,2)] have "w \<in> set (nodes G)" by blast
  with h show "d \<in> hops G s ` set (nodes G)" by blast
qed

lemma eccentricity_connected:
  assumes "wf_graph G" "\<And>s. s \<in> set (nodes G) \<Longrightarrow> set (nodes G) \<subseteq> component_of G s"
  shows "set ns \<subseteq> set (nodes G) \<Longrightarrow>
    eccentricity (to_undirected G) ns =
      Inr (map (\<lambda>s. (s, Max (hops G s ` set (nodes G)))) ns)"
proof (induction ns)
  case Nil
  show ?case by simp
next
  case (Cons s ns)
  from Cons.prems have s: "s \<in> set (nodes G)" by simp
  have full: "component_of G s = set (nodes G)"
    using assms(2) [OF s] component_of_nodes [OF assms(1) s] by blast
  from assms(1) have "length (nodes G) = card (set (nodes G))"
    by (simp add: wf_graph_def distinct_card)
  with full have len: "length (single_source_shortest_path_length (to_undirected G) s) =
      length (nodes (to_undirected G))"
    by (simp add: length_shortest_path_length length_plain_bfs [OF assms(1)] nodes_to_undirected)
  have "Max (set (map snd (single_source_shortest_path_length (to_undirected G) s))) =
      Max (hops G s ` set (nodes G))"
    unfolding max_shortest_path_length hops_image [OF assms(1) s assms(2) [OF s]]
    using Max_below [OF bfs_source_length, of "to_undirected G" s] by simp
  with len Cons show ?case by (simp add: Let_def)
qed

lemma eccentricity_disconnected:
  assumes "wf_graph G" "nodes G \<noteq> []" "card (components G) \<noteq> 1"
  shows "eccentricity (to_undirected G) (nodes G) = Inl NetworkXError"
proof -
  from assms(2) obtain s ns where n: "nodes G = s # ns" by (cases "nodes G") auto
  then have s: "s \<in> set (nodes G)" by simp
  from assms(1) have d: "length (nodes G) = card (set (nodes G))"
    by (simp add: wf_graph_def distinct_card)
  have "card (component_of G s) \<noteq> card (set (nodes G))"
  proof
    assume "card (component_of G s) = card (set (nodes G))"
    with card_subset_eq [OF _ component_of_nodes [OF assms(1) s]]
    have "component_of G s = set (nodes G)" by simp
    with one_component_iff [OF s] assms(3) show False by simp
  qed
  with d have "length (single_source_shortest_path_length (to_undirected G) s) \<noteq>
      length (nodes (to_undirected G))"
    by (simp add: length_shortest_path_length length_plain_bfs [OF assms(1)] nodes_to_undirected)
  then show ?thesis by (simp add: n Let_def)
qed

lemma Max_pairs:
  assumes "finite A" "A \<noteq> {}"
  shows "Max ((\<lambda>(u, v). f u v) ` (A \<times> A)) = Max ((\<lambda>u. Max (f u ` A)) ` A)"
proof (rule Max_eqI)
  from assms(1) show "finite ((\<lambda>(u, v). f u v) ` (A \<times> A))" by simp
next
  fix y :: "'b" assume "y \<in> (\<lambda>(u, v). f u v) ` (A \<times> A)"
  then obtain u v where uv: "u \<in> A" "v \<in> A" "y = f u v" by auto
  with assms(1) have "y \<le> Max (f u ` A)" by simp
  also from assms(1) uv(1) have "\<dots> \<le> Max ((\<lambda>u. Max (f u ` A)) ` A)" by simp
  finally show "y \<le> Max ((\<lambda>u. Max (f u ` A)) ` A)" .
next
  from assms have "Max ((\<lambda>u. Max (f u ` A)) ` A) \<in> (\<lambda>u. Max (f u ` A)) ` A"
    by (intro Max_in) auto
  then obtain u where u: "u \<in> A" "Max ((\<lambda>u. Max (f u ` A)) ` A) = Max (f u ` A)" by auto
  from assms have "Max (f u ` A) \<in> f u ` A" by (intro Max_in) auto
  then obtain v where "v \<in> A" "Max (f u ` A) = f u v" by auto
  with u show "Max ((\<lambda>u. Max (f u ` A)) ` A) \<in> (\<lambda>(u, v). f u v) ` (A \<times> A)" by force
qed

lemma diameter_connected:
  assumes "wf_graph G" "nodes G \<noteq> []" "card (components G) = 1"
  shows "diameter (to_undirected G) = Inr (longest_shortest_path G)"
proof -
  have all: "set (nodes G) \<subseteq> component_of G s" if "s \<in> set (nodes G)" for s
    using one_component_iff [OF that] assms(3) by simp
  have e: "eccentricity (to_undirected G) (nodes G) =
      Inr (map (\<lambda>s. (s, Max (hops G s ` set (nodes G)))) (nodes G))"
    by (rule eccentricity_connected [OF assms(1) all]) simp_all
  have "set (map snd (map (\<lambda>s. (s, Max (hops G s ` set (nodes G)))) (nodes G))) =
      (\<lambda>s. Max (hops G s ` set (nodes G))) ` set (nodes G)"
    by (simp add: image_image)
  moreover from assms(2) have "longest_shortest_path G =
      Max ((\<lambda>s. Max (hops G s ` set (nodes G))) ` set (nodes G))"
    unfolding longest_shortest_path_def by (intro Max_pairs) simp_all
  ultimately show ?thesis
    using assms(2) by (simp add: diameter_def nodes_to_undirected e)
qed

lemma diameter_disconnected:
  assumes "wf_graph G" "nodes G \<noteq> []" "card (components G) \<noteq> 1"
  shows "diameter (to_undirected G) = Inl NetworkXError"
  using eccentricity_disconnected [OF assms] by (simp add: diameter_def nodes_to_undirected)

text \<open>
  The script reaches the metric only for a graph with at least one entity: on the
  graph without nodes the sidebar has already raised \<open>ZeroDivisionError\<close>.
\<close>

lemma connectivity_metric_reached:
  "connectivity_metric G =
     (if nodes G = [] then Inl ZeroDivisionError else network_connectivity G)"
  by (simp add: connectivity_metric_def average_connections_def)

lemma connectivity_metric_null: "connectivity_metric null_graph = Inl ZeroDivisionError"
  by (simp add: connectivity_metric_reached null_graph_def)

text \<open>
  C2. For every loaded graph for which the metric is computed, that is for every graph
  with at least one entity: if the undirected projection has exactly one connected
  component, the metric is the \<open>Diameter\<close> variant and holds the longest
  shortest-path hop count; otherwise it is the \<open>ConnectedComponents\<close> variant and
  holds the number of connected components. In the second case the diameter is not
  computed; computing it there would raise \<open>NetworkXError\<close>.
\<close>

theorem network_connectivity_result:
  assumes "wf_graph G" "nodes G \<noteq> []"
  shows "(card (components G) = 1 \<longrightarrow>
      network_connectivity G = Inr (Diameter (longest_shortest_path G))) \<and>
    (card (components G) \<noteq> 1 \<longrightarrow>
      network_connectivity G = Inr (ConnectedComponents (card (components G))) \<and>
      diameter (to_undirected G) = Inl NetworkXError)"
proof -
  note c = is_connected_iff [OF assms]
  have 1: "card (components G) = 1 \<longrightarrow>
      network_connectivity G = Inr (Diameter (longest_shortest_path G))"
  proof
    assume one: "card (components G) = 1"
    with c have "is_connected (to_undirected G) = Inr True" by simp
    with diameter_connected [OF assms one] show
      "network_connectivity G = Inr (Diameter (longest_shortest_path G))"
      by (simp add: network_connectivity_def)
  qed
  have 2: "card (components G) \<noteq> 1 \<longrightarrow>
      network_connectivity G = Inr (ConnectedComponents (card (components G))) \<and>
      diameter (to_undirected G) = Inl NetworkXError"
  proof
    assume many: "card (components G) \<noteq> 1"
    with c have "is_connected (to_undirected G) = Inr False" by simp
    then have "network_connectivity G = Inr (ConnectedComponents (card (components G)))"
      by (simp add: network_connectivity_def number_connected_components_eq [OF assms(1)])
    with diameter_disconnected [OF assms many] show
      "network_connectivity G = Inr (ConnectedComponents (card (components G))) \<and>
       diameter (to_undirected G) = Inl NetworkXError"
      by (rule conjI [rotated])
  qed
  from 1 2 show ?thesis by (rule conjI)
qed

lemma chain_graph_levels:
  "bfs_levels (to_undirected chain_graph) [''A''] [''A''] = [[''A''], [''B''], [''C''], [''D'']]"
  "bfs_levels (to_undirected chain_graph) [''B''] [''B''] = [[''B''], [''A'', ''C''], [''D'']]"
  "bfs_levels (to_undirected chain_graph) [''C''] [''C''] = [[''C''], [''B'', ''D''], [''A'']]"
  "bfs_levels (to_undirected chain_graph) [''D''] [''D''] = [[''D''], [''C''], [''B''], [''A'']]"
  by (simp_all add: bfs_levels_Cons bfs_levels_Nil next_level_def adj_def to_undirected_def
      chain_graph_def)

lemma chain_graph_connectivity: "network_connectivity chain_graph = Inr (Diameter 3)"
proof -
  have n: "nodes (to_undirected chain_graph) = [''A'', ''B'', ''C'', ''D'']"
    by (simp add: to_undirected_def chain_graph_def)
  have c: "is_connected (to_undirected chain_graph) = Inr True"
    by (simp add: is_connected_def n plain_bfs_def chain_graph_levels)
  have e: "eccentricity (to_undirected chain_graph) [''A'', ''B'', ''C'', ''D''] =
      Inr [(''A'', 3), (''B'', 2), (''C'', 2), (''D'', 3)]"
    by (simp add: n single_source_shortest_path_length_def chain_graph_levels enumerate_eq_zip
        upt_conv_Cons)
  have "diameter (to_undirected chain_graph) = Inr 3"
    unfolding diameter_def n e by simp
  with c show ?thesis by (simp add: network_connectivity_def)
qed

lemma two_islands_levels:
  "bfs_levels (to_undirected two_islands) [''A''] [''A''] = [[''A''], [''B''], [''C'']]"
  "bfs_levels (to_undirected two_islands) [''D''] [''D''] = [[''D'']]"
  by (simp_all add: bfs_levels_Cons bfs_levels_Nil next_level_def adj_def to_undirected_def
      two_islands_def)

lemma two_islands_connectivity: "network_connectivity two_islands = Inr (ConnectedComponents 2)"
proof -
  have n: "nodes (to_undirected two_islands) = [''A'', ''B'', ''C'', ''D'']"
    by (simp add: to_undirected_def two_islands_def)
  have c: "is_connected (to_undirected two_islands) = Inr False"
    by (simp add: is_connected_def n plain_bfs_def two_islands_levels)
  have "number_connected_components (to_undirected two_islands) = 2"
    by (simp add: number_connected_components_def n plain_bfs_def two_islands_levels)
  with c show ?thesis by (simp add: network_connectivity_def)
qed

theorem network_connectivity_result_witness:
  "wf_graph chain_graph \<and> nodes chain_graph \<noteq> [] \<and>
   network_connectivity chain_graph = Inr (Diameter 3) \<and>
   card (components chain_graph) = 1 \<and> longest_shortest_path chain_graph = 3 \<and>
   wf_graph two_islands \<and> nodes two_islands \<noteq> [] \<and>
   network_connectivity two_islands = Inr (ConnectedComponents 2) \<and>
   card (components two_islands) = 2 \<and>
   diameter (to_undirected two_islands) = Inl NetworkXError"
proof -
  have w1: "wf_graph chain_graph" by (simp add: wf_graph_def chain_graph_def)
  have n1: "nodes chain_graph \<noteq> []" by (simp add: chain_graph_def)
  note r1 = network_connectivity_result [OF w1 n1]
  have c1: "card (components chain_graph) = 1"
    using r1 chain_graph_connectivity by (cases "card (components chain_graph) = 1") simp_all
  with r1 chain_graph_connectivity have l1: "longest_shortest_path chain_graph = 3" by simp
  have w2: "wf_graph two_islands" by (simp add: wf_graph_def two_islands_def)
  have n2: "nodes two_islands \<noteq> []" by (simp add: two_islands_def)
  note r2 = network_connectivity_result [OF w2 n2]
  have m2: "card (components two_islands) \<noteq> 1"
    using r2 two_islands_connectivity by (cases "card (components two_islands) = 1") simp_all
  with r2 two_islands_connectivity have c2: "card (components two_islands) = 2" by simp
  from r2 m2 have d2: "diameter (to_undirected two_islands) = Inl NetworkXError" by simp
  show ?thesis
    by (intro conjI)
      (rule w1 n1 chain_graph_connectivity c1 l1 w2 n2 two_islands_connectivity c2 d2)+
qed

end
